theory Spec2Isabelle
  imports Complex_Main "HOL-Library.Word" "HOL-Library.List_Lexorder"
begin

section \<open>JavaScript strings\<close>

text \<open>
  A JavaScript string is a sequence of UTF-16 code units. \<open>js\<close> turns an ASCII literal
  into such a sequence, so that the literals of \<^verbatim>\<open>scripts/update-ioc-database.js\<close>
  can be written as they are in the source.
\<close>

type_synonym jschar = "16 word"
type_synonym jsstring = "jschar list"

definition js :: "string \<Rightarrow> jsstring" where
  "js s = map of_char s"

definition dquote :: jschar where "dquote = 0x22"
definition comma :: jschar where "comma = 0x2C"
definition newline :: jschar where "newline = 0x0A"

text \<open>
  \<^verbatim>\<open>String.prototype.trim\<close> removes the code units of WhiteSpace and LineTerminator
  from both ends: TAB, LF, VT, FF, CR, SP, NBSP, U+1680, U+2000..U+200A, U+2028, U+2029,
  U+202F, U+205F, U+3000 and U+FEFF.
\<close>

definition is_space :: "jschar \<Rightarrow> bool" where
  "is_space c \<longleftrightarrow>
     c = 0x09 \<or> c = 0x0A \<or> c = 0x0B \<or> c = 0x0C \<or> c = 0x0D \<or> c = 0x20 \<or> c = 0xA0 \<or>
     c = 0x1680 \<or> (0x2000 \<le> c \<and> c \<le> 0x200A) \<or> c = 0x2028 \<or> c = 0x2029 \<or>
     c = 0x202F \<or> c = 0x205F \<or> c = 0x3000 \<or> c = 0xFEFF"

definition trim :: "jsstring \<Rightarrow> jsstring" where
  "trim s = rev (dropWhile is_space (rev (dropWhile is_space s)))"

text \<open>
  \<^verbatim>\<open>s.split(d)\<close> for a separator of one code unit: the pieces between the
  occurrences of \<open>d\<close>; the empty string gives one empty piece. The loop state is the
  piece being read and the pieces already closed.
\<close>

fun split_loop :: "jschar \<Rightarrow> jsstring \<Rightarrow> jsstring list \<Rightarrow> jsstring \<Rightarrow> jsstring list" where
  "split_loop d cur done [] = done @ [cur]"
| "split_loop d cur done (c # cs) =
     (if c = d then split_loop d [] (done @ [cur]) cs
      else split_loop d (cur @ [c]) done cs)"

definition split :: "jschar \<Rightarrow> jsstring \<Rightarrow> jsstring list" where
  "split d s = split_loop d [] [] s"

section \<open>The feed parser\<close>

text \<open>
  \<^verbatim>\<open>parseCSVLine\<close>: the \<^verbatim>\<open>for\<close> loop over the code units of the line, with
  its three variables \<^verbatim>\<open>result\<close>, \<^verbatim>\<open>current\<close> and \<^verbatim>\<open>inQuotes\<close>; after the
  loop the last field is pushed.
\<close>

fun csv_loop :: "jsstring list \<Rightarrow> jsstring \<Rightarrow> bool \<Rightarrow> jsstring \<Rightarrow> jsstring list" where
  "csv_loop result current inQuotes [] = result @ [trim current]"
| "csv_loop result current inQuotes (c # cs) =
     (if c = dquote then csv_loop result current (\<not> inQuotes) cs
      else if c = comma \<and> \<not> inQuotes then csv_loop (result @ [trim current]) [] inQuotes cs
      else csv_loop result (current @ [c]) inQuotes cs)"

definition parseCSVLine :: "jsstring \<Rightarrow> jsstring list" where
  "parseCSVLine line = csv_loop [] [] False line"

record packageEntry =
  name :: jsstring
  severity :: jsstring
  affectedVersions :: "jsstring list"

record packageRecord = packageEntry +
  sources :: "jsstring list"

text \<open>
  Array destructuring \<^verbatim>\<open>[a, b, c] = fields\<close> gives \<^verbatim>\<open>undefined\<close> (here \<open>None\<close>)
  for a position past the end.
\<close>

definition item :: "'a list \<Rightarrow> nat \<Rightarrow> 'a option" where
  "item xs i = (if i < length xs then Some (xs ! i) else None)"

text \<open>\<^verbatim>\<open>s.split(',').map(v => v.trim()).filter(v => v.length > 0)\<close>\<close>

definition split_list :: "jsstring \<Rightarrow> jsstring list" where
  "split_list s = filter (\<lambda>v. length v > 0) (map trim (split comma s))"

text \<open>
  One turn of the loop of \<^verbatim>\<open>parseConsolidatedCSV\<close> on the row \<^verbatim>\<open>lines[i]\<close>:
  \<open>None\<close> is \<^verbatim>\<open>continue\<close>, \<open>Some r\<close> is \<^verbatim>\<open>packages.push(r)\<close>. A string is
  falsy when it is \<^verbatim>\<open>undefined\<close> or empty. \<open>record_of\<close> is the turn from the
  destructuring of the fields on.
\<close>

definition record_of :: "jsstring list \<Rightarrow> packageRecord option" where
  "record_of cells =
     (let packageName = item cells 0;
          packageVersions = item cells 1;
          srcs = item cells 2
      in case (packageName, packageVersions) of
           (Some n, Some v) \<Rightarrow>
             if n = [] \<or> v = [] then None
             else Some \<lparr> name = n, severity = js ''critical'',
                          affectedVersions = split_list v,
                          sources = (case srcs of
                                       None \<Rightarrow> []
                                     | Some s \<Rightarrow> if s = [] then [] else split_list s) \<rparr>
         | _ \<Rightarrow> None)"

definition parse_row :: "jsstring \<Rightarrow> packageRecord option" where
  "parse_row raw =
     (let line = trim raw in
      if line = [] then None else record_of (parseCSVLine line))"

fun rows_loop :: "packageRecord list \<Rightarrow> jsstring list \<Rightarrow> packageRecord list" where
  "rows_loop packages [] = packages"
| "rows_loop packages (l # ls) =
     (case parse_row l of
        None \<Rightarrow> rows_loop packages ls
      | Some r \<Rightarrow> rows_loop (packages @ [r]) ls)"

definition parseConsolidatedCSV :: "jsstring \<Rightarrow> packageRecord list" where
  "parseConsolidatedCSV csvContent =
     rows_loop [] (drop 1 (split newline (trim csvContent)))"

subsection \<open>The parser as a state transformer\<close>

text \<open>
  The same two functions once more, now over a state that holds the variables they
  declare and that outlives the call, so that a call may find there whatever an earlier
  call left. \<^verbatim>\<open>parseCSVLine\<close> declares \<^verbatim>\<open>result\<close>, \<^verbatim>\<open>current\<close> and
  \<^verbatim>\<open>inQuotes\<close>; its declarations set them to \<^verbatim>\<open>[]\<close>, \<^verbatim>\<open>''\<close> and
  \<^verbatim>\<open>false\<close>, each turn of its loop reads one code unit, and the last field is pushed
  after the loop.
\<close>

record scanner =
  result :: "jsstring list"
  current :: jsstring
  inQuotes :: bool

definition scan_char :: "scanner \<Rightarrow> jschar \<Rightarrow> scanner" where
  "scan_char s c =
     (if c = dquote then s\<lparr>inQuotes := \<not> inQuotes s\<rparr>
      else if c = comma \<and> \<not> inQuotes s
      then s\<lparr>result := result s @ [trim (current s)], current := []\<rparr>
      else s\<lparr>current := current s @ [c]\<rparr>)"

definition parseCSVLine_run :: "scanner \<Rightarrow> jsstring \<Rightarrow> jsstring list \<times> scanner" where
  "parseCSVLine_run s line =
     (let s1 = foldl scan_char (s\<lparr>result := [], current := [], inQuotes := False\<rparr>) line;
          s2 = s1\<lparr>result := result s1 @ [trim (current s1)]\<rparr>
      in (result s2, s2))"

text \<open>
  \<^verbatim>\<open>parseConsolidatedCSV\<close> declares \<^verbatim>\<open>lines\<close> and \<^verbatim>\<open>packages\<close>, and calls the
  scanner, whose variables are part of the state. A turn of its loop leaves the state as
  it is on \<^verbatim>\<open>continue\<close> and pushes a record otherwise; the constants of a turn are
  bound before they are read.
\<close>

record parser =
  callee :: scanner
  lines :: "jsstring list"
  packages :: "packageRecord list"

definition parse_turn :: "parser \<Rightarrow> jsstring \<Rightarrow> parser" where
  "parse_turn s raw =
     (let line = trim raw in
      if line = [] then s
      else
        let (cells, sc) = parseCSVLine_run (callee s) line
        in case record_of cells of
             None \<Rightarrow> s\<lparr>callee := sc\<rparr>
           | Some r \<Rightarrow> s\<lparr>callee := sc, packages := packages s @ [r]\<rparr>)"

definition parseConsolidatedCSV_run :: "parser \<Rightarrow> jsstring \<Rightarrow> packageRecord list \<times> parser" where
  "parseConsolidatedCSV_run s csvContent =
     (let s0 = s\<lparr>lines := split newline (trim csvContent), packages := []\<rparr>;
          s1 = foldl parse_turn s0 (drop 1 (lines s0))
      in (packages s1, s1))"

section \<open>Transport\<close>

text \<open>
  What the network answers to one \<^verbatim>\<open>https.get\<close>: a request that fails (the
  \<^verbatim>\<open>'error'\<close> event, or an exception of \<^verbatim>\<open>https.get\<close> itself, which rejects the
  promise as well), a response, or nothing at all. The body of a response is the
  concatenation of its chunks at \<^verbatim>\<open>'end'\<close>, or the message of an \<^verbatim>\<open>'error'\<close> of
  the stream. \<^verbatim>\<open>res.headers.location\<close> is \<^verbatim>\<open>undefined\<close> (\<open>None\<close>) when the header is
  missing, and the same holds for the argument of \<^verbatim>\<open>fetchUrl\<close>.
\<close>

record response =
  statusCode :: nat
  statusMessage :: jsstring
  location :: "jsstring option"
  body :: "jsstring + jsstring"

datatype reply = Failed jsstring | Responded response | Silent

text \<open>
  The network is a function of the calls made so far and of the URL asked for, so that
  a server may answer the same URL differently each time.
\<close>

type_synonym network = "jsstring option list \<Rightarrow> jsstring option \<Rightarrow> reply"

text \<open>
  A rejection carries an \<^verbatim>\<open>Error\<close> with its message; \<open>TypeError\<close> is the exception
  the engine raises by itself, whose message depends on the engine.
\<close>

datatype error = Error jsstring | TypeError

text \<open>The decimal digits of a number, as a template literal prints it.\<close>

fun decimal :: "nat \<Rightarrow> jsstring" where
  "decimal n =
     (if n < 10 then [of_nat (48 + n)]
      else decimal (n div 10) @ [of_nat (48 + n mod 10)])"

declare decimal.simps [simp del]

text \<open>
  \<^verbatim>\<open>fetchUrl\<close> returns the settled promise and the calls of \<^verbatim>\<open>https.get\<close> made;
  \<open>None\<close> is a promise that never settles (a redirect loop, or a request that is never
  answered).
\<close>

partial_function (option) fetchUrl ::
  "network \<Rightarrow> jsstring option list \<Rightarrow> jsstring option
     \<Rightarrow> ((error + jsstring) \<times> jsstring option list) option" where
  "fetchUrl net reqs url =
     (case net reqs url of
        Silent \<Rightarrow> None
      | Failed cause \<Rightarrow> Some (Inl (Error cause), reqs @ [url])
      | Responded res \<Rightarrow>
          if statusCode res = 301 \<or> statusCode res = 302
          then fetchUrl net (reqs @ [url]) (location res)
          else if statusCode res \<noteq> 200
          then Some (Inl (Error (js ''HTTP '' @ decimal (statusCode res) @ js '': ''
                                 @ statusMessage res)), reqs @ [url])
          else (case body res of
                  Inr data \<Rightarrow> Some (Inr data, reqs @ [url])
                | Inl cause \<Rightarrow> Some (Inl (Error cause), reqs @ [url])))"

section \<open>The previous database\<close>

text \<open>
  \<^verbatim>\<open>loadExistingDatabase\<close> returns whatever \<^verbatim>\<open>JSON.parse\<close> makes of the file, so
  the previous database is any JSON value. A number is the real it denotes (both
  zeros are \<open>0\<close>), or an infinity for a literal out of range. An object is the list of
  its own properties, each key once.
\<close>

datatype jsnumber = Finite real | Infinity bool

datatype json =
    JNull
  | JBool bool
  | JNumber jsnumber
  | JString jsstring
  | JArray "json list"
  | JObject "(jsstring \<times> json) list"

fun truthy :: "json \<Rightarrow> bool" where
  "truthy JNull = False"
| "truthy (JBool b) = b"
| "truthy (JNumber (Finite x)) = (x \<noteq> 0)"
| "truthy (JNumber (Infinity _)) = True"
| "truthy (JString s) = (s \<noteq> [])"
| "truthy (JArray _) = True"
| "truthy (JObject _) = True"

text \<open>
  \<^verbatim>\<open>existing?.key\<close>: \<^verbatim>\<open>undefined\<close> (\<open>None\<close>) when \<^verbatim>\<open>existing\<close> is \<^verbatim>\<open>null\<close>
  or has no such property; none of the keys read is a property of a prototype.
\<close>

definition field :: "json option \<Rightarrow> jsstring \<Rightarrow> json option" where
  "field existing key =
     (case existing of
        Some (JObject ps) \<Rightarrow> map_of ps key
      | _ \<Rightarrow> None)"

text \<open>\<^verbatim>\<open>v || d\<close>\<close>

definition or_else :: "json option \<Rightarrow> json \<Rightarrow> json" where
  "or_else v d = (case v of Some x \<Rightarrow> if truthy x then x else d | None \<Rightarrow> d)"

section \<open>Counting the sources\<close>

text \<open>
  \<^verbatim>\<open>sourceCounts\<close> is an ordinary object, \<^verbatim>\<open>{}\<close>: the list of its own properties in
  the order of their creation, above \<^verbatim>\<open>Object.prototype\<close>. A value is a number, or the
  string that \<^verbatim>\<open>+ 1\<close> makes of a function or an object (never a numeral).
\<close>

datatype count = Num nat | Text

type_synonym counts = "(jsstring \<times> count) list"

definition objectPrototype :: "jsstring list" where
  "objectPrototype =
     [js ''constructor'', js ''__defineGetter__'', js ''__defineSetter__'',
      js ''hasOwnProperty'', js ''__lookupGetter__'', js ''__lookupSetter__'',
      js ''isPrototypeOf'', js ''propertyIsEnumerable'', js ''toString'', js ''valueOf'',
      js ''__proto__'', js ''toLocaleString'']"

text \<open>
  \<^verbatim>\<open>(sourceCounts[source] || 0) + 1\<close>: an own number is incremented; an own string
  gets \<^verbatim>\<open>"1"\<close> appended; a property inherited from \<^verbatim>\<open>Object.prototype\<close> is truthy
  and becomes a string; \<^verbatim>\<open>undefined\<close> gives \<^verbatim>\<open>1\<close>.
\<close>

definition bump :: "counts \<Rightarrow> jsstring \<Rightarrow> count" where
  "bump sc source =
     (case map_of sc source of
        Some (Num n) \<Rightarrow> Num (n + 1)
      | Some Text \<Rightarrow> Text
      | None \<Rightarrow> if source \<in> set objectPrototype then Text else Num 1)"

text \<open>
  \<^verbatim>\<open>sourceCounts[source] = v\<close>: an own property is overwritten in place; the key
  \<^verbatim>\<open>__proto__\<close> reaches the setter of \<^verbatim>\<open>Object.prototype\<close>, which ignores a value
  that is neither an object nor \<^verbatim>\<open>null\<close>; any other key becomes a new own property.
\<close>

definition assign :: "counts \<Rightarrow> jsstring \<Rightarrow> count \<Rightarrow> counts" where
  "assign sc key v =
     (if key \<in> fst ` set sc then map (\<lambda>(k, w). if k = key then (k, v) else (k, w)) sc
      else if key = js ''__proto__'' then sc
      else sc @ [(key, v)])"

definition count_source :: "counts \<Rightarrow> jsstring \<Rightarrow> counts" where
  "count_source sc source = assign sc source (bump sc source)"

definition countSources :: "packageRecord list \<Rightarrow> counts" where
  "countSources pkgs = foldl (\<lambda>sc pkg. foldl count_source sc (sources pkg)) [] pkgs"

text \<open>
  The order of \<^verbatim>\<open>Object.keys\<close> and \<^verbatim>\<open>Object.entries\<close>: first the keys that are
  array indices (the canonical numeral of an integer below \<open>2\<^sup>3\<^sup>2 - 1\<close>) in ascending
  numeric order, then the other keys in the order of their creation.
\<close>

definition is_digit :: "jschar \<Rightarrow> bool" where
  "is_digit c \<longleftrightarrow> 0x30 \<le> c \<and> c \<le> 0x39"

definition digits_value :: "jsstring \<Rightarrow> nat" where
  "digits_value s = foldl (\<lambda>n c. 10 * n + (unat c - 48)) 0 s"

definition array_index :: "jsstring \<Rightarrow> nat option" where
  "array_index s =
     (if s \<noteq> [] \<and> list_all is_digit s \<and> (length s = 1 \<or> hd s \<noteq> 0x30)
         \<and> digits_value s < 2 ^ 32 - 1
      then Some (digits_value s) else None)"

definition entries :: "counts \<Rightarrow> (jsstring \<times> count) list" where
  "entries sc =
     sort_key (\<lambda>e. the (array_index (fst e))) (filter (\<lambda>e. array_index (fst e) \<noteq> None) sc)
     @ filter (\<lambda>e. array_index (fst e) = None) sc"

text \<open>
  \<^verbatim>\<open>Array.prototype.sort\<close> with a comparison function. The language fixes the result
  only when the function is consistent on the elements: equality under it is reflexive,
  symmetric and transitive, less and greater are transitive, and (as for a difference)
  one element is greater than another exactly when the other is less. Then the result is
  the one stable arrangement in ascending order, which an insertion sort gives that puts
  \<open>x\<close> before the first \<open>y\<close> with \<open>cmp x y \<le> 0\<close>, the later elements being inserted
  first. Otherwise the order is left to the engine, and the model gives \<open>None\<close>.
\<close>

definition consistent :: "('a \<Rightarrow> 'a \<Rightarrow> int) \<Rightarrow> 'a list \<Rightarrow> bool" where
  "consistent cmp xs \<longleftrightarrow>
     (\<forall>a \<in> set xs. \<forall>b \<in> set xs. \<forall>c \<in> set xs.
        cmp a a = 0 \<and>
        (cmp a b = 0 \<longrightarrow> cmp b a = 0) \<and>
        (cmp a b > 0 \<longleftrightarrow> cmp b a < 0) \<and>
        (cmp a b = 0 \<and> cmp b c = 0 \<longrightarrow> cmp a c = 0) \<and>
        (cmp a b < 0 \<and> cmp b c < 0 \<longrightarrow> cmp a c < 0) \<and>
        (cmp a b > 0 \<and> cmp b c > 0 \<longrightarrow> cmp a c > 0))"

fun insert_by :: "('a \<Rightarrow> 'a \<Rightarrow> int) \<Rightarrow> 'a \<Rightarrow> 'a list \<Rightarrow> 'a list" where
  "insert_by cmp x [] = [x]"
| "insert_by cmp x (y # ys) =
     (if cmp x y \<le> 0 then x # y # ys else y # insert_by cmp x ys)"

definition sort_by :: "('a \<Rightarrow> 'a \<Rightarrow> int) \<Rightarrow> 'a list \<Rightarrow> 'a list option" where
  "sort_by cmp xs = (if consistent cmp xs then Some (foldr (insert_by cmp) xs []) else None)"

text \<open>
  \<^verbatim>\<open>(a, b) => b[1] - a[1]\<close>; with a string on either side the difference is
  \<^verbatim>\<open>NaN\<close>, which \<^verbatim>\<open>sort\<close> reads as \<open>0\<close>.
\<close>

fun by_count :: "jsstring \<times> count \<Rightarrow> jsstring \<times> count \<Rightarrow> int" where
  "by_count (_, Num a) (_, Num b) = int b - int a"
| "by_count _ _ = 0"

text \<open>
  The pairs that the loop under \<^verbatim>\<open>'Sources aggregated:'\<close> prints, in the order it
  prints them; \<open>None\<close> when a string among the counts leaves the order to the engine.
\<close>

definition sourceReport :: "packageRecord list \<Rightarrow> (jsstring \<times> count) list option" where
  "sourceReport pkgs = sort_by by_count (entries (countSources pkgs))"

section \<open>The merged database\<close>

record data_source =
  url :: jsstring
  description :: jsstring
  sources :: "jsstring list"
  fetchedAt :: jsstring

record database =
  version :: json
  lastUpdated :: jsstring
  dataSource :: data_source
  attackInfo :: json
  indicators :: json
  acknowledgements :: json
  packages :: "packageEntry list"

definition defaultAttackInfo :: json where
  "defaultAttackInfo =
     JObject [(js ''name'', JString (js ''Shai-Hulud 2.0'')),
              (js ''alias'', JString (js ''The Second Coming'')),
              (js ''firstDetected'', JString (js ''2025-11-24T03:16:00Z'')),
              (js ''description'', JString (js
                 ''Self-replicating npm worm targeting credential theft and supply chain compromise.''))]"

text \<open>
  The object literal \<^verbatim>\<open>database\<close> of \<^verbatim>\<open>updateDatabase\<close>; \<open>now\<close> is
  \<^verbatim>\<open>new Date().toISOString()\<close>. \<^verbatim>\<open>Object.keys(sourceCounts).sort()\<close> compares the
  keys by their code units.
\<close>

definition buildDatabase :: "jsstring \<Rightarrow> json option \<Rightarrow> packageRecord list \<Rightarrow> database" where
  "buildDatabase now existing pkgs =
     \<lparr> version = or_else (field existing (js ''version'')) (JString (js ''2.1.0'')),
       lastUpdated = now,
       dataSource =
         \<lparr> url = js ''https://github.com/DataDog/indicators-of-compromise/tree/main/shai-hulud-2.0'',
           description = js ''Consolidated IOCs from multiple security vendors'',
           sources = sort (map fst (entries (countSources pkgs))),
           fetchedAt = now \<rparr>,
       attackInfo = or_else (field existing (js ''attackInfo'')) defaultAttackInfo,
       indicators = or_else (field existing (js ''indicators'')) (JObject []),
       acknowledgements = or_else (field existing (js ''acknowledgements'')) (JArray []),
       packages = map (\<lambda>pkg. \<lparr> name = name pkg, severity = severity pkg,
                                affectedVersions = affectedVersions pkg \<rparr>) pkgs \<rparr>"

section \<open>The sync\<close>





definition CONSOLIDATED_IOC_URL :: jsstring where
  "CONSOLIDATED_IOC_URL =
     js ''https://raw.githubusercontent.com/DataDog/indicators-of-compromise/main/shai-hulud-2.0/consolidated_iocs.csv''"




section \<open>The line format in words\<close>

text \<open>
  A field of a line is written as a sequence of pieces: plain text, with no comma and no
  double quote in it, and quoted text, with no double quote in it, put between two double
  quotes. A line is its fields with a comma between each two. The text of a field is the
  text of its pieces, without the quotes.
\<close>

datatype piece = Plain jsstring | Quoted jsstring

fun written :: "piece \<Rightarrow> jsstring" where
  "written (Plain s) = s"
| "written (Quoted s) = dquote # s @ [dquote]"

fun text_of :: "piece \<Rightarrow> jsstring" where
  "text_of (Plain s) = s"
| "text_of (Quoted s) = s"

fun well_formed :: "piece \<Rightarrow> bool" where
  "well_formed (Plain s) \<longleftrightarrow> comma \<notin> set s \<and> dquote \<notin> set s"
| "well_formed (Quoted s) \<longleftrightarrow> dquote \<notin> set s"

definition write_field :: "piece list \<Rightarrow> jsstring" where
  "write_field f = concat (map written f)"

definition field_text :: "piece list \<Rightarrow> jsstring" where
  "field_text f = concat (map text_of f)"

fun write_line :: "piece list list \<Rightarrow> jsstring" where
  "write_line [] = []"
| "write_line [f] = write_field f"
| "write_line (f # g # fs) = write_field f @ comma # write_line (g # fs)"

definition well_formed_line :: "piece list list \<Rightarrow> bool" where
  "well_formed_line fs \<longleftrightarrow> fs \<noteq> [] \<and> list_all (list_all well_formed) fs"

section \<open>The source report in words\<close>

text \<open>
  The sources of all records in feed order; the distinct elements of a list in the order of
  their first occurrence; the key order of an object (array indices ascending, then the
  other names as given).
\<close>

definition all_sources :: "packageRecord list \<Rightarrow> jsstring list" where
  "all_sources pkgs = concat (map packageRecord.sources pkgs)"

definition first_seen :: "'a list \<Rightarrow> 'a list" where
  "first_seen xs = rev (remdups (rev xs))"

definition key_order :: "jsstring list \<Rightarrow> jsstring list" where
  "key_order ks =
     sort_key (\<lambda>k. the (array_index k)) (filter (\<lambda>k. array_index k \<noteq> None) ks)
     @ filter (\<lambda>k. array_index k = None) ks"

text \<open>
  What the report holds when no source bears the name of a property of
  \<^verbatim>\<open>Object.prototype\<close>: each source with the number of its occurrences, sorted by
  descending count, stably from the key order.
\<close>

definition occurrence_report :: "packageRecord list \<Rightarrow> (jsstring \<times> nat) list" where
  "occurrence_report pkgs =
     sort_key (\<lambda>(s, n). - int n)
       (map (\<lambda>s. (s, count_list (all_sources pkgs) s)) (key_order (first_seen (all_sources pkgs))))"


section \<open>Concrete inputs\<close>

text \<open>The header of the published feed and the rows named by the specification.\<close>

definition feed_header :: jsstring where
  "feed_header = js ''package_name,package_versions,sources''"

definition quoted_row :: jsstring where
  \<open>quoted_row = js ''pkg-a,"1.0.0,1.0.1",vendorX''\<close>

definition comma_only_feed :: jsstring where
  \<open>comma_only_feed = feed_header @ [newline] @ js ''pkg-b,",",vendorX''\<close>

definition messy_line :: jsstring where
  \<open>messy_line = js ''a""b, "c,d''\<close>

text \<open>
  The quoted row with blanks around its fields, the quoted row as fields, a line whose last
  quote is never closed, and two states of the parser, one clean and one full of leftovers.
\<close>

definition padded_row :: jsstring where
  \<open>padded_row = js ''  pkg-a , " 1.0.0 , 1.0.1 " , vendorX''\<close>

definition quoted_fields :: "piece list list" where
  "quoted_fields = [[Plain (js ''pkg-a'')], [Quoted (js ''1.0.0,1.0.1'')], [Plain (js ''vendorX'')]]"

definition open_line :: jsstring where
  \<open>open_line = js ''pkg,1.0.0,"wiz,datadog''\<close>

definition open_fields :: "piece list list" where
  "open_fields = [[Plain (js ''pkg'')], [Plain (js ''1.0.0'')], []]"

definition dirty_parser :: parser where
  \<open>dirty_parser =
     \<lparr> callee = \<lparr> result = [js ''left,over''], current = js ''"half'', inQuotes = True \<rparr>,
       lines = [js ''old line''],
       parser.packages = [\<lparr> name = js ''stale'', severity = js ''critical'',
                             affectedVersions = [js ''0.0.1''],
                             packageRecord.sources = [js ''nobody''] \<rparr>] \<rparr>\<close>

definition clean_parser :: parser where
  "clean_parser =
     \<lparr> callee = \<lparr> result = [], current = [], inQuotes = False \<rparr>, lines = [],
       parser.packages = [] \<rparr>"

text \<open>Networks, a feed and a world for the transport.\<close>

definition mirror_url :: jsstring where
  "mirror_url = js ''https://mirror.example/consolidated_iocs.csv''"

definition small_feed :: jsstring where
  "small_feed = js ''package_name,package_versions,sources'' @ [newline] @ js ''pkg-a,1.0.0,vendorX''"

text \<open>A server that moves the feed: 302 at the feed URL, the feed at the new place.\<close>

definition moved_net :: network where
  "moved_net reqs u =
     (if u = Some CONSOLIDATED_IOC_URL
      then Responded \<lparr> statusCode = 302, statusMessage = js ''Found'',
                        location = Some mirror_url, body = Inr [] \<rparr>
      else if u = Some mirror_url
      then Responded \<lparr> statusCode = 200, statusMessage = js ''OK'',
                        location = None, body = Inr small_feed \<rparr>
      else Failed (js ''getaddrinfo ENOTFOUND''))"



text \<open>Previous databases: a curated one, one whose credits are \<^verbatim>\<open>null\<close>, one whose
  version is the empty string.\<close>

definition curated_db :: json where
  "curated_db =
     JObject [(js ''version'', JString (js ''2.0.3'')),
              (js ''attackInfo'', JObject [(js ''name'', JString (js ''Shai-Hulud 2.0'')),
                                          (js ''alias'', JString (js ''Sandworm''))]),
              (js ''indicators'', JObject [(js ''maliciousFiles'', JArray [JString (js ''bun_environment.js'')])]),
              (js ''acknowledgements'', JObject [(js ''securityResearchers'', JArray [])])]"

definition null_credits_db :: json where
  "null_credits_db =
     JObject [(js ''version'', JString (js ''2.0.3'')),
              (js ''attackInfo'', JObject [(js ''alias'', JString (js ''Sandworm''))]),
              (js ''indicators'', JObject []),
              (js ''acknowledgements'', JNull)]"

definition unversioned_db :: json where
  "unversioned_db =
     JObject [(js ''version'', JString []),
              (js ''attackInfo'', JObject [(js ''alias'', JString (js ''Sandworm''))]),
              (js ''indicators'', JObject [])]"


definition vendor_pkgs :: "packageRecord list" where
  "vendor_pkgs =
     [\<lparr> name = js ''pkg-a'', severity = js ''critical'', affectedVersions = [js ''1.0.0''],
        packageRecord.sources = [js ''wiz'', js ''datadog''] \<rparr>,
      \<lparr> name = js ''pkg-b'', severity = js ''critical'', affectedVersions = [js ''1.0.0''],
        packageRecord.sources = [js ''datadog'', js ''10''] \<rparr>,
      \<lparr> name = js ''pkg-c'', severity = js ''critical'', affectedVersions = [js ''1.0.0''],
        packageRecord.sources = [js ''9'', js ''wiz'', js ''wiz''] \<rparr>]"

definition proto_feed :: jsstring where
  \<open>proto_feed = feed_header @ [newline] @ js ''pkg-c,1.0.0,"__proto__,wiz"''\<close>

section \<open>Properties of strings and lines\<close>

lemma set_trim: "x \<in> set (trim s) \<Longrightarrow> x \<in> set s"
  unfolding trim_def by (auto dest!: set_dropWhileD)

lemma dropWhile_no_lead: "xs = [] \<or> \<not> P (hd xs) \<Longrightarrow> dropWhile P xs = xs"
  by (cases xs) auto

lemma trim_trimmed: "trim (trim s) = trim s"
proof -
  let ?t = "dropWhile is_space s"
  let ?u = "dropWhile is_space (rev ?t)"
  have t: "?t = rev ?u @ rev (takeWhile is_space (rev ?t))"
    by (metis rev_append rev_rev_ident takeWhile_dropWhile_id)
  have lead: "rev ?u = [] \<or> \<not> is_space (hd (rev ?u))"
  proof (cases "rev ?u = []")
    case True
    then show ?thesis by simp
  next
    case False
    then have "hd (rev ?u) = hd ?t"
      using t by (metis hd_append2)
    moreover have "?t \<noteq> []"
    proof
      assume e: "?t = []"
      have "?u = []" unfolding e by simp
      with False show False by simp
    qed
    ultimately show ?thesis
      using hd_dropWhile[of is_space s] by simp
  qed
  have a: "dropWhile is_space (rev ?u) = rev ?u"
    using lead by (rule dropWhile_no_lead)
  have b: "dropWhile is_space ?u = ?u"
    by (rule dropWhile_idem)
  show ?thesis
    unfolding trim_def a by (simp add: b)
qed

text \<open>
  \<open>trim\<close> takes whitespace, and nothing else, from the two ends, and leaves none there.
\<close>

lemma trim_shape:
  "\<exists>l r. s = l @ trim s @ r \<and> (\<forall>c \<in> set l. is_space c) \<and> (\<forall>c \<in> set r. is_space c) \<and>
         (trim s \<noteq> [] \<longrightarrow> \<not> is_space (hd (trim s)) \<and> \<not> is_space (last (trim s)))"
proof -
  let ?t = "dropWhile is_space s"
  let ?u = "dropWhile is_space (rev ?t)"
  let ?l = "takeWhile is_space s"
  let ?r = "rev (takeWhile is_space (rev ?t))"
  have t: "?t = rev ?u @ ?r"
    by (metis rev_append rev_rev_ident takeWhile_dropWhile_id)
  have s: "s = ?l @ trim s @ ?r"
    unfolding trim_def using t by (metis takeWhile_dropWhile_id)
  have l: "\<forall>c \<in> set ?l. is_space c"
    by (auto dest: set_takeWhileD)
  have r: "\<forall>c \<in> set ?r. is_space c"
    by (auto dest: set_takeWhileD)
  have e: "trim s \<noteq> [] \<longrightarrow> \<not> is_space (hd (trim s)) \<and> \<not> is_space (last (trim s))"
  proof
    assume ne: "trim s \<noteq> []"
    then have une: "?u \<noteq> []" by (simp add: trim_def)
    have "hd (trim s) = hd ?t"
      using t ne unfolding trim_def by (metis hd_append2)
    moreover have "?t \<noteq> []"
    proof
      assume z: "?t = []"
      have "?u = []" unfolding z by simp
      with une show False by simp
    qed
    ultimately have a: "\<not> is_space (hd (trim s))"
      using hd_dropWhile[of is_space s] by simp
    have "last (trim s) = hd ?u"
      unfolding trim_def using une by (simp add: last_rev)
    then have b: "\<not> is_space (last (trim s))"
      using hd_dropWhile[OF une] by simp
    from a b show "\<not> is_space (hd (trim s)) \<and> \<not> is_space (last (trim s))" ..
  qed
  from s l r e show ?thesis by blast
qed

lemma split_loop_none:
  "d \<notin> set s \<Longrightarrow> split_loop d cur done s = done @ [cur @ s]"
  by (induction s arbitrary: cur) auto

lemma split_loop_first:
  "d \<notin> set s \<Longrightarrow> split_loop d cur done (s @ d # t) = split_loop d [] (done @ [cur @ s]) t"
  by (induction s arbitrary: cur) auto

lemma trim_header_row:
  assumes "\<exists>c \<in> set h. \<not> is_space c" and "row \<noteq> []" and "\<not> is_space (last row)"
  shows "trim (h @ newline # row) = dropWhile is_space h @ newline # row"
proof -
  from assms(1) obtain c where c: "c \<in> set h" "\<not> is_space c" by blast
  have a: "dropWhile is_space (h @ newline # row) = dropWhile is_space h @ newline # row"
    using c by (rule dropWhile_append1)
  have "rev (dropWhile is_space h @ newline # row) = rev row @ newline # rev (dropWhile is_space h)"
    by simp
  moreover have "dropWhile is_space (rev row @ newline # rev (dropWhile is_space h))
                 = rev row @ newline # rev (dropWhile is_space h)"
    using assms(2,3) by (cases "rev row") (auto simp: last_rev hd_rev)
  ultimately show ?thesis unfolding trim_def a by simp
qed

text \<open>A feed of a header with something in it and one row has that row as its only data line.\<close>

lemma lines_header_row:
  assumes "newline \<notin> set header" and "\<exists>c \<in> set header. \<not> is_space c"
    and "row \<noteq> []" and "\<not> is_space (last row)" and "newline \<notin> set row"
  shows "drop 1 (split newline (trim (header @ [newline] @ row))) = [row]"
proof -
  have n: "newline \<notin> set (dropWhile is_space header)"
    using assms(1) by (auto dest: set_dropWhileD)
  have "trim (header @ [newline] @ row) = dropWhile is_space header @ newline # row"
    using trim_header_row[OF assms(2,3,4)] by simp
  moreover have "split newline (dropWhile is_space header @ newline # row)
                 = [dropWhile is_space header, row]"
    unfolding split_def using split_loop_first[OF n] split_loop_none[OF assms(5)] by simp
  ultimately show ?thesis by simp
qed

section \<open>Properties of the line scanner\<close>

lemma csv_loop_no_quote:
  "\<lbrakk>\<forall>f \<in> set acc. dquote \<notin> set f; dquote \<notin> set cur\<rbrakk>
   \<Longrightarrow> \<forall>f \<in> set (csv_loop acc cur q line). dquote \<notin> set f"
proof (induction line arbitrary: acc cur q)
  case Nil
  then show ?case by (auto dest: set_trim)
next
  case (Cons c cs)
  show ?case
  proof (cases "c = dquote")
    case True
    have "\<forall>f \<in> set (csv_loop acc cur (\<not> q) cs). dquote \<notin> set f"
      using Cons.prems by (rule Cons.IH)
    then show ?thesis using True by simp
  next
    case False
    note nq = this
    show ?thesis
    proof (cases "c = comma \<and> \<not> q")
      case True
      have r: "\<forall>f \<in> set (acc @ [trim cur]). dquote \<notin> set f"
        using Cons.prems by (auto dest: set_trim)
      have "\<forall>f \<in> set (csv_loop (acc @ [trim cur]) [] q cs). dquote \<notin> set f"
        by (rule Cons.IH[OF r]) simp
      then show ?thesis using nq True by simp
    next
      case False
      have c: "dquote \<notin> set (cur @ [c])" using Cons.prems(2) nq by auto
      have "\<forall>f \<in> set (csv_loop acc (cur @ [c]) q cs). dquote \<notin> set f"
        by (rule Cons.IH[OF Cons.prems(1) c])
      then show ?thesis using nq False by auto
    qed
  qed
qed

lemma csv_loop_quote_pair:
  "csv_loop acc cur q (xs @ dquote # dquote # ys) = csv_loop acc cur q (xs @ ys)"
  by (induction xs arbitrary: acc cur q) auto

lemma csv_loop_not_Nil: "csv_loop acc cur q line \<noteq> []"
  by (induction line arbitrary: acc cur q) auto

lemma csv_loop_open_quote:
  "dquote \<notin> set ys \<Longrightarrow> csv_loop acc cur True ys = acc @ [trim (cur @ ys)]"
  by (induction ys arbitrary: cur) auto

lemma csv_loop_trimmed:
  "\<forall>f \<in> set acc. trim f = f
   \<Longrightarrow> \<forall>f \<in> set (csv_loop acc cur q line). trim f = f"
proof (induction line arbitrary: acc cur q)
  case Nil
  then show ?case by (simp add: trim_trimmed)
next
  case (Cons c cs)
  have r: "\<forall>f \<in> set (acc @ [trim cur]). trim f = f"
    using Cons.prems by (simp add: trim_trimmed)
  show ?case
    using Cons.IH[OF Cons.prems] Cons.IH[OF r] by simp
qed

lemma well_formed_line_iff:
  "well_formed_line fs \<longleftrightarrow> fs \<noteq> [] \<and> (\<forall>f \<in> set fs. \<forall>p \<in> set f. well_formed p)"
  by (simp add: well_formed_line_def list_all_iff)

lemma comma_not_dquote: "comma \<noteq> dquote"
  by (simp add: comma_def dquote_def)

lemma csv_loop_plain:
  "comma \<notin> set s \<Longrightarrow> dquote \<notin> set s
   \<Longrightarrow> csv_loop acc cur False (s @ rest) = csv_loop acc (cur @ s) False rest"
  by (induction s arbitrary: cur) auto

lemma csv_loop_inside:
  "dquote \<notin> set s \<Longrightarrow> csv_loop acc cur True (s @ rest) = csv_loop acc (cur @ s) True rest"
  by (induction s arbitrary: cur) auto

lemma csv_loop_piece:
  "well_formed p \<Longrightarrow> csv_loop acc cur False (written p @ rest) = csv_loop acc (cur @ text_of p) False rest"
proof (cases p)
  case (Plain s)
  assume "well_formed p"
  then show ?thesis using Plain by (simp add: csv_loop_plain)
next
  case (Quoted s)
  assume "well_formed p"
  then have d: "dquote \<notin> set s" using Quoted by simp
  have "csv_loop acc cur False (written p @ rest) = csv_loop acc cur True (s @ dquote # rest)"
    using Quoted by simp
  also have "\<dots> = csv_loop acc (cur @ s) True (dquote # rest)"
    using d by (rule csv_loop_inside)
  also have "\<dots> = csv_loop acc (cur @ s) False rest"
    by simp
  finally show ?thesis using Quoted by simp
qed

lemma csv_loop_field:
  "\<forall>p \<in> set f. well_formed p
   \<Longrightarrow> csv_loop acc cur False (write_field f @ rest) = csv_loop acc (cur @ field_text f) False rest"
proof (induction f arbitrary: cur)
  case Nil
  show ?case by (simp add: write_field_def field_text_def)
next
  case (Cons p f)
  have "csv_loop acc cur False (write_field (p # f) @ rest)
        = csv_loop acc cur False (written p @ (write_field f @ rest))"
    by (simp add: write_field_def)
  also have "\<dots> = csv_loop acc (cur @ text_of p) False (write_field f @ rest)"
    using Cons.prems by (intro csv_loop_piece) simp
  also have "\<dots> = csv_loop acc ((cur @ text_of p) @ field_text f) False rest"
    using Cons.prems by (intro Cons.IH) simp
  finally show ?case by (simp add: field_text_def)
qed

text \<open>The scanner reads back what was written, up to the state it is left in.\<close>

lemma csv_loop_line:
  "well_formed_line fs
   \<Longrightarrow> csv_loop acc [] False (write_line fs @ rest)
       = csv_loop (acc @ map (\<lambda>f. trim (field_text f)) (butlast fs)) (field_text (last fs)) False rest"
proof (induction fs arbitrary: acc rule: write_line.induct)
  case 1
  then show ?case by (simp add: well_formed_line_iff)
next
  case (2 f)
  then have "\<forall>p \<in> set f. well_formed p" by (simp add: well_formed_line_iff)
  then show ?case using csv_loop_field[of f acc "[]" rest] by simp
next
  case (3 f g fs)
  have wf: "\<forall>p \<in> set f. well_formed p" and wl: "well_formed_line (g # fs)"
    using "3.prems" by (simp_all add: well_formed_line_iff)
  have "csv_loop acc [] False (write_line (f # g # fs) @ rest)
        = csv_loop acc [] False (write_field f @ (comma # write_line (g # fs) @ rest))"
    by simp
  also have "\<dots> = csv_loop acc (field_text f) False (comma # write_line (g # fs) @ rest)"
    using csv_loop_field[OF wf, of acc "[]"] by simp
  also have "\<dots> = csv_loop (acc @ [trim (field_text f)]) [] False (write_line (g # fs) @ rest)"
    using comma_not_dquote by simp
  also have "\<dots> = csv_loop ((acc @ [trim (field_text f)]) @ map (\<lambda>f. trim (field_text f)) (butlast (g # fs)))
                        (field_text (last (g # fs))) False rest"
    using wl by (rule "3.IH")
  finally show ?case by simp
qed

lemma map_butlast_last: "fs \<noteq> [] \<Longrightarrow> map h (butlast fs) @ [h (last fs)] = map h fs"
  by (metis append_butlast_last_id list.simps(8,9) map_append)

lemma scan_written:
  assumes "well_formed_line fs"
  shows "parseCSVLine (write_line fs) = map (\<lambda>f. trim (field_text f)) fs"
proof -
  have ne: "fs \<noteq> []" using assms by (simp add: well_formed_line_iff)
  have "parseCSVLine (write_line fs)
        = map (\<lambda>f. trim (field_text f)) (butlast fs) @ [trim (field_text (last fs))]"
    unfolding parseCSVLine_def using csv_loop_line[OF assms, of "[]" "[]"] by simp
  then show ?thesis using map_butlast_last[OF ne, of "\<lambda>f. trim (field_text f)"] by simp
qed

lemma scan_open:
  assumes "well_formed_line fs" and "dquote \<notin> set rest"
  shows "parseCSVLine (write_line fs @ dquote # rest)
         = map (\<lambda>f. trim (field_text f)) (butlast fs) @ [trim (field_text (last fs) @ rest)]"
proof -
  have "csv_loop [] [] False (write_line fs @ dquote # rest)
        = csv_loop (map (\<lambda>f. trim (field_text f)) (butlast fs)) (field_text (last fs)) False (dquote # rest)"
    using csv_loop_line[OF assms(1), of "[]" "dquote # rest"] by simp
  also have "\<dots> = csv_loop (map (\<lambda>f. trim (field_text f)) (butlast fs)) (field_text (last fs)) True rest"
    by simp
  also have "\<dots> = map (\<lambda>f. trim (field_text f)) (butlast fs) @ [trim (field_text (last fs) @ rest)]"
    using assms(2) by (rule csv_loop_open_quote)
  finally show ?thesis unfolding parseCSVLine_def .
qed

lemma csv_loop_closing: "csv_loop acc cur q (line @ [dquote]) = csv_loop acc cur q line"
  by (induction line arbitrary: acc cur q) auto

text \<open>
  Every line is a written line, or a written line followed by an opening quote and a rest
  without quotes.
\<close>

lemma write_line_Cons: "fs \<noteq> [] \<Longrightarrow> write_line (f # fs) = write_field f @ comma # write_line fs"
  by (cases fs) simp_all

lemma write_line_snoc_field:
  "fs \<noteq> [] \<Longrightarrow> write_line (fs @ [[]]) = write_line fs @ [comma]"
proof (induction fs)
  case Nil
  then show ?case by simp
next
  case (Cons f fs)
  show ?case
  proof (cases "fs = []")
    case True
    then show ?thesis by (simp add: write_field_def)
  next
    case False
    then show ?thesis using Cons.IH by (simp add: write_line_Cons)
  qed
qed

lemma write_line_snoc_piece:
  "fs \<noteq> [] \<Longrightarrow> write_line (butlast fs @ [last fs @ [p]]) = write_line fs @ written p"
proof (induction fs)
  case Nil
  then show ?case by simp
next
  case (Cons f fs)
  show ?case
  proof (cases "fs = []")
    case True
    then show ?thesis by (simp add: write_field_def)
  next
    case False
    then show ?thesis using Cons.IH by (simp add: write_line_Cons)
  qed
qed

lemma well_formed_snoc_field: "well_formed_line fs \<Longrightarrow> well_formed_line (fs @ [[]])"
  by (simp add: well_formed_line_iff)

lemma well_formed_snoc_piece:
  "well_formed_line fs \<Longrightarrow> well_formed p \<Longrightarrow> well_formed_line (butlast fs @ [last fs @ [p]])"
  unfolding well_formed_line_iff
  by (auto dest: in_set_butlastD)

lemma line_shapes:
  "(\<exists>fs. well_formed_line fs \<and> line = write_line fs) \<or>
   (\<exists>fs rest. well_formed_line fs \<and> dquote \<notin> set rest \<and> line = write_line fs @ dquote # rest)"
proof (induction line rule: rev_induct)
  case Nil
  have "well_formed_line [[]]" by (simp add: well_formed_line_iff)
  moreover have "[] = write_line [[]]" by (simp add: write_field_def)
  ultimately show ?case by blast
next
  case (snoc c line)
  from snoc.IH show ?case
  proof
    assume "\<exists>fs. well_formed_line fs \<and> line = write_line fs"
    then obtain fs where wf: "well_formed_line fs" and l: "line = write_line fs" by blast
    then have ne: "fs \<noteq> []" by (simp add: well_formed_line_iff)
    show ?thesis
    proof (cases "c = dquote")
      case True
      then have "line @ [c] = write_line fs @ dquote # []" using l by simp
      then show ?thesis using wf by (metis empty_iff empty_set)
    next
      case False
      show ?thesis
      proof (cases "c = comma")
        case True
        then have "line @ [c] = write_line (fs @ [[]])"
          using l write_line_snoc_field[OF ne] by simp
        then show ?thesis using well_formed_snoc_field[OF wf] by blast
      next
        case nc: False
        have p: "well_formed (Plain [c])" using False nc by simp
        have "line @ [c] = write_line (butlast fs @ [last fs @ [Plain [c]]])"
          using l write_line_snoc_piece[OF ne, of "Plain [c]"] by simp
        then show ?thesis using well_formed_snoc_piece[OF wf p] by blast
      qed
    qed
  next
    assume "\<exists>fs rest. well_formed_line fs \<and> dquote \<notin> set rest \<and> line = write_line fs @ dquote # rest"
    then obtain fs rest where wf: "well_formed_line fs" and r: "dquote \<notin> set rest"
      and l: "line = write_line fs @ dquote # rest" by blast
    then have ne: "fs \<noteq> []" by (simp add: well_formed_line_iff)
    show ?thesis
    proof (cases "c = dquote")
      case True
      have p: "well_formed (Quoted rest)" using r by simp
      have "line @ [c] = write_line (butlast fs @ [last fs @ [Quoted rest]])"
        using l True write_line_snoc_piece[OF ne, of "Quoted rest"] by simp
      then show ?thesis using well_formed_snoc_piece[OF wf p] by blast
    next
      case False
      then have "dquote \<notin> set (rest @ [c])" using r by auto
      moreover have "line @ [c] = write_line fs @ dquote # (rest @ [c])" using l by simp
      ultimately show ?thesis using wf by blast
    qed
  qed
qed

text \<open>
  C10. No field that \<^verbatim>\<open>parseCSVLine\<close> returns holds a double quote; a pair of double
  quotes anywhere in the line adds nothing to any field; every line gives at least one
  field. A quote left open gives a complete field list at the end of the line: the line
  parses as it does with the quote closed there; after any written line, an opening quote
  and a rest without quotes give the fields written before and, as the last field, the
  field in progress with the whole rest, commas included. Every line is of one of the two
  shapes, written or written and left open, and parses accordingly.
\<close>

theorem parseCSVLine_drops_quotes:
  "(\<forall>f \<in> set (parseCSVLine line). dquote \<notin> set f) \<and>
   parseCSVLine (xs @ [dquote, dquote] @ ys) = parseCSVLine (xs @ ys) \<and>
   parseCSVLine line \<noteq> [] \<and>
   (dquote \<notin> set rest \<longrightarrow> parseCSVLine (dquote # rest) = [trim rest]) \<and>
   parseCSVLine (line @ [dquote]) = parseCSVLine line \<and>
   (well_formed_line fs \<longrightarrow>
      parseCSVLine (write_line fs) = map (\<lambda>f. trim (field_text f)) fs) \<and>
   (well_formed_line fs \<and> dquote \<notin> set rest \<longrightarrow>
      parseCSVLine (write_line fs @ dquote # rest)
        = map (\<lambda>f. trim (field_text f)) (butlast fs) @ [trim (field_text (last fs) @ rest)]) \<and>
   ((\<exists>gs. well_formed_line gs \<and> line = write_line gs \<and>
          parseCSVLine line = map (\<lambda>f. trim (field_text f)) gs) \<or>
    (\<exists>gs tail. well_formed_line gs \<and> dquote \<notin> set tail \<and>
          line = write_line gs @ dquote # tail \<and>
          parseCSVLine line
            = map (\<lambda>f. trim (field_text f)) (butlast gs) @ [trim (field_text (last gs) @ tail)]))"
proof (intro conjI impI)
  show "\<forall>f \<in> set (parseCSVLine line). dquote \<notin> set f"
    unfolding parseCSVLine_def by (rule csv_loop_no_quote) simp_all
  show "parseCSVLine (xs @ [dquote, dquote] @ ys) = parseCSVLine (xs @ ys)"
    unfolding parseCSVLine_def using csv_loop_quote_pair[of "[]" "[]" False xs ys] by simp
  show "parseCSVLine line \<noteq> []"
    unfolding parseCSVLine_def by (rule csv_loop_not_Nil)
  show "parseCSVLine (line @ [dquote]) = parseCSVLine line"
    unfolding parseCSVLine_def by (rule csv_loop_closing)
  show "(\<exists>gs. well_formed_line gs \<and> line = write_line gs \<and>
          parseCSVLine line = map (\<lambda>f. trim (field_text f)) gs) \<or>
    (\<exists>gs tail. well_formed_line gs \<and> dquote \<notin> set tail \<and>
          line = write_line gs @ dquote # tail \<and>
          parseCSVLine line
            = map (\<lambda>f. trim (field_text f)) (butlast gs) @ [trim (field_text (last gs) @ tail)])"
    using line_shapes[of line]
  proof
    assume "\<exists>gs. well_formed_line gs \<and> line = write_line gs"
    then obtain gs where "well_formed_line gs" and "line = write_line gs"
      by blast
    then show ?thesis
      using scan_written[of gs] by blast
  next
    assume "\<exists>gs tail. well_formed_line gs \<and> dquote \<notin> set tail \<and> line = write_line gs @ dquote # tail"
    then obtain gs tail where "well_formed_line gs" and "dquote \<notin> set tail"
      and "line = write_line gs @ dquote # tail"
      by blast
    then show ?thesis
      using scan_open[of gs tail] by blast
  qed
next
  assume "dquote \<notin> set rest"
  then show "parseCSVLine (dquote # rest) = [trim rest]"
    unfolding parseCSVLine_def using csv_loop_open_quote[of rest "[]" "[]"] by simp
next
  assume "well_formed_line fs"
  then show "parseCSVLine (write_line fs) = map (\<lambda>f. trim (field_text f)) fs"
    by (rule scan_written)
next
  assume "well_formed_line fs \<and> dquote \<notin> set rest"
  then show "parseCSVLine (write_line fs @ dquote # rest)
        = map (\<lambda>f. trim (field_text f)) (butlast fs) @ [trim (field_text (last fs) @ rest)]"
    using scan_open[of fs rest] by blast
qed

lemma messy_line_fields: "parseCSVLine messy_line = [js ''ab'', js ''c,d'']"
  by code_simp

lemma open_fields_written:
  "well_formed_line open_fields" "dquote \<notin> set (js ''wiz,datadog'')"
  "write_line open_fields @ dquote # js ''wiz,datadog'' = open_line"
  by (simp_all add: well_formed_line_def open_fields_def open_line_def write_field_def js_def
      dquote_def comma_def)

lemma open_fields_texts:
  "map (\<lambda>f. trim (field_text f)) (butlast open_fields) = [js ''pkg'', js ''1.0.0'']"
  "trim (field_text (last open_fields) @ js ''wiz,datadog'') = js ''wiz,datadog''"
  by (simp_all add: open_fields_def field_text_def trim_def js_def is_space_def)

theorem parseCSVLine_drops_quotes_witness:
  \<open>parseCSVLine messy_line = [js ''ab'', js ''c,d''] \<and>
   dquote \<notin> set (js ''ab'') \<and> dquote \<notin> set (js ''c,d'') \<and>
   parseCSVLine (dquote # js ''c,d'') = [trim (js ''c,d'')] \<and>
   dquote \<notin> set (js ''wiz,datadog'') \<and>
   write_line open_fields @ dquote # js ''wiz,datadog'' = open_line \<and>
   parseCSVLine open_line = [js ''pkg'', js ''1.0.0'', js ''wiz,datadog''] \<and>
   parseCSVLine (open_line @ [dquote]) = [js ''pkg'', js ''1.0.0'', js ''wiz,datadog'']\<close>
proof -
  have d: "dquote \<notin> set (js ''c,d'')" "dquote \<notin> set (js ''ab'')"
    by (simp_all add: js_def dquote_def)
  note m = parseCSVLine_drops_quotes[of messy_line "[]" "[]" "js ''c,d''" "[]"]
  note t = parseCSVLine_drops_quotes[of open_line "[]" "[]" "js ''wiz,datadog''" open_fields]
  have o: "parseCSVLine open_line = [js ''pkg'', js ''1.0.0'', js ''wiz,datadog'']"
    using t open_fields_written open_fields_texts by simp
  have c: "parseCSVLine (open_line @ [dquote]) = parseCSVLine open_line"
    using t by blast
  show ?thesis
    using m d o c open_fields_written messy_line_fields by simp
qed

section \<open>Properties of the feed parser\<close>

lemma rows_loop_append: "rows_loop acc ls = acc @ rows_loop [] ls"
proof (induction ls arbitrary: acc)
  case Nil
  show ?case by simp
next
  case (Cons l ls)
  show ?case
  proof (cases "parse_row l")
    case None
    then show ?thesis using Cons.IH[of acc] by simp
  next
    case (Some r)
    then show ?thesis using Cons.IH[of "acc @ [r]"] Cons.IH[of "[r]"] by simp
  qed
qed

lemma rows_loop_map_filter: "rows_loop acc ls = acc @ List.map_filter parse_row ls"
  by (induction ls arbitrary: acc) (auto split: option.splits)

lemma rows_loop_set:
  "r \<in> set (rows_loop [] ls) \<Longrightarrow> \<exists>l \<in> set ls. parse_row l = Some r"
  unfolding rows_loop_map_filter by (auto simp: List.map_filter_def)

lemma parse_row_name: "parse_row l = Some r \<Longrightarrow> name r \<noteq> []"
  unfolding parse_row_def record_of_def Let_def
  by (auto split: if_splits option.splits)

text \<open>
  The parser returns one record for each line after the first whose turn of the loop
  pushes one, in the order of the lines.
\<close>

lemma parseConsolidatedCSV_length:
  "length (parseConsolidatedCSV csv)
     = length (filter (\<lambda>l. parse_row l \<noteq> None) (drop 1 (split newline (trim csv))))"
  unfolding parseConsolidatedCSV_def rows_loop_map_filter
  by (simp add: List.map_filter_def)

text \<open>Every record of the parser has a name that is not empty.\<close>

lemma parseConsolidatedCSV_names: "r \<in> set (parseConsolidatedCSV csv) \<Longrightarrow> name r \<noteq> []"
  unfolding parseConsolidatedCSV_def
  by (blast dest: rows_loop_set parse_row_name)

lemma quoted_row_facts:
  "quoted_row \<noteq> []" "\<not> is_space (last quoted_row)" "newline \<notin> set quoted_row"
  by (simp_all add: quoted_row_def js_def is_space_def newline_def)

lemma padded_row_facts:
  "padded_row \<noteq> []" "\<not> is_space (last padded_row)" "newline \<notin> set padded_row"
  by (simp_all add: padded_row_def js_def is_space_def newline_def)

lemma parse_quoted_row:
  "parse_row quoted_row = Some \<lparr> name = js ''pkg-a'', severity = js ''critical'',
       affectedVersions = [js ''1.0.0'', js ''1.0.1''],
       packageRecord.sources = [js ''vendorX''] \<rparr>"
  by code_simp

lemma parse_padded_row:
  "parse_row padded_row = Some \<lparr> name = js ''pkg-a'', severity = js ''critical'',
       affectedVersions = [js ''1.0.0'', js ''1.0.1''],
       packageRecord.sources = [js ''vendorX''] \<rparr>"
  by code_simp

text \<open>
  C4. The row \<^verbatim>\<open>pkg-a,"1.0.0,1.0.1",vendorX\<close> is scanned into the three fields
  \<^verbatim>\<open>pkg-a\<close>, \<^verbatim>\<open>1.0.0,1.0.1\<close> and \<^verbatim>\<open>vendorX\<close>, and a feed made of a header line
  (any line that is not blank) and this row parses to exactly one record, with name
  \<^verbatim>\<open>pkg-a\<close>, the versions \<^verbatim>\<open>1.0.0\<close> and \<^verbatim>\<open>1.0.1\<close>, and the source \<^verbatim>\<open>vendorX\<close>;
  so does the row with blanks around its fields and inside its quotes. In general, a line
  written from fields parses to the texts of its fields, trimmed: a comma between quotes
  stays in its field and the quotes go. A trimmed text is the text without the whitespace
  at its two ends, and has none there. In the scanner a comma inside quotes joins the
  field being read, a double quote flips the mode and nothing else, and every field
  returned is trimmed.
\<close>

theorem quoted_row_parsed:
  assumes "newline \<notin> set header" and "\<exists>c \<in> set header. \<not> is_space c"
  shows "parseCSVLine quoted_row = [js ''pkg-a'', js ''1.0.0,1.0.1'', js ''vendorX''] \<and>
         parseConsolidatedCSV (header @ [newline] @ quoted_row) =
           [\<lparr> name = js ''pkg-a'', severity = js ''critical'',
              affectedVersions = [js ''1.0.0'', js ''1.0.1''],
              packageRecord.sources = [js ''vendorX''] \<rparr>] \<and>
         csv_loop acc cur True (comma # cs) = csv_loop acc (cur @ [comma]) True cs \<and>
         csv_loop acc cur q (dquote # cs) = csv_loop acc cur (\<not> q) cs \<and>
         (\<forall>f \<in> set (parseCSVLine line). trim f = f) \<and>
         parseConsolidatedCSV (header @ [newline] @ padded_row) =
           [\<lparr> name = js ''pkg-a'', severity = js ''critical'',
              affectedVersions = [js ''1.0.0'', js ''1.0.1''],
              packageRecord.sources = [js ''vendorX''] \<rparr>] \<and>
         (well_formed_line fs \<longrightarrow>
            parseCSVLine (write_line fs) = map (\<lambda>f. trim (field_text f)) fs) \<and>
         (\<exists>l r. s = l @ trim s @ r \<and> (\<forall>c \<in> set l. is_space c) \<and> (\<forall>c \<in> set r. is_space c) \<and>
                (trim s \<noteq> [] \<longrightarrow> \<not> is_space (hd (trim s)) \<and> \<not> is_space (last (trim s))))"
proof (intro conjI impI)
  show "parseCSVLine quoted_row = [js ''pkg-a'', js ''1.0.0,1.0.1'', js ''vendorX'']"
    by code_simp
  have "drop 1 (split newline (trim (header @ [newline] @ quoted_row))) = [quoted_row]"
    using assms quoted_row_facts by (rule lines_header_row)
  then show "parseConsolidatedCSV (header @ [newline] @ quoted_row) =
           [\<lparr> name = js ''pkg-a'', severity = js ''critical'',
              affectedVersions = [js ''1.0.0'', js ''1.0.1''],
              packageRecord.sources = [js ''vendorX''] \<rparr>]"
    unfolding parseConsolidatedCSV_def by (simp add: parse_quoted_row)
  show "csv_loop acc cur True (comma # cs) = csv_loop acc (cur @ [comma]) True cs"
    by (simp add: comma_def dquote_def)
  show "csv_loop acc cur q (dquote # cs) = csv_loop acc cur (\<not> q) cs"
    by simp
  show "\<forall>f \<in> set (parseCSVLine line). trim f = f"
    unfolding parseCSVLine_def by (rule csv_loop_trimmed) simp
  have "drop 1 (split newline (trim (header @ [newline] @ padded_row))) = [padded_row]"
    using assms padded_row_facts by (rule lines_header_row)
  then show "parseConsolidatedCSV (header @ [newline] @ padded_row) =
           [\<lparr> name = js ''pkg-a'', severity = js ''critical'',
              affectedVersions = [js ''1.0.0'', js ''1.0.1''],
              packageRecord.sources = [js ''vendorX''] \<rparr>]"
    unfolding parseConsolidatedCSV_def by (simp add: parse_padded_row)
  show "\<exists>l r. s = l @ trim s @ r \<and> (\<forall>c \<in> set l. is_space c) \<and> (\<forall>c \<in> set r. is_space c) \<and>
                (trim s \<noteq> [] \<longrightarrow> \<not> is_space (hd (trim s)) \<and> \<not> is_space (last (trim s)))"
    by (rule trim_shape)
next
  assume "well_formed_line fs"
  then show "parseCSVLine (write_line fs) = map (\<lambda>f. trim (field_text f)) fs"
    by (rule scan_written)
qed

lemma quoted_fields_written:
  "well_formed_line quoted_fields" "write_line quoted_fields = quoted_row"
  by (simp_all add: well_formed_line_def quoted_fields_def quoted_row_def write_field_def js_def
      dquote_def comma_def)

lemma quoted_fields_texts:
  "map (\<lambda>f. trim (field_text f)) quoted_fields = [js ''pkg-a'', js ''1.0.0,1.0.1'', js ''vendorX'']"
  by (simp add: quoted_fields_def field_text_def trim_def js_def is_space_def)

theorem quoted_row_parsed_witness:
  "newline \<notin> set feed_header \<and> 0x70 \<in> set feed_header \<and> \<not> is_space 0x70 \<and>
   parseConsolidatedCSV (feed_header @ [newline] @ quoted_row) =
     [\<lparr> name = js ''pkg-a'', severity = js ''critical'',
        affectedVersions = [js ''1.0.0'', js ''1.0.1''],
        packageRecord.sources = [js ''vendorX''] \<rparr>] \<and>
   parseConsolidatedCSV (feed_header @ [newline] @ padded_row) =
     [\<lparr> name = js ''pkg-a'', severity = js ''critical'',
        affectedVersions = [js ''1.0.0'', js ''1.0.1''],
        packageRecord.sources = [js ''vendorX''] \<rparr>] \<and>
   trim (js ''1.0.0,1.0.1'') = js ''1.0.0,1.0.1'' \<and>
   write_line quoted_fields = quoted_row \<and>
   parseCSVLine (write_line quoted_fields) = [js ''pkg-a'', js ''1.0.0,1.0.1'', js ''vendorX'']"
proof -
  have a: "newline \<notin> set feed_header"
    by (simp add: feed_header_def js_def newline_def)
  have p: "\<not> is_space (0x70 :: jschar)"
    by (simp add: is_space_def)
  have m: "(0x70 :: jschar) \<in> set feed_header"
    by (simp add: feed_header_def js_def)
  from p m have b: "\<exists>c \<in> set feed_header. \<not> is_space c"
    by blast
  note t = quoted_row_parsed[OF a b, where line = quoted_row and fs = quoted_fields]
  have "js ''1.0.0,1.0.1'' \<in> set (parseCSVLine quoted_row)"
    using t by simp
  then have i: "trim (js ''1.0.0,1.0.1'') = js ''1.0.0,1.0.1''"
    using t by blast
  have w: "parseCSVLine (write_line quoted_fields) = [js ''pkg-a'', js ''1.0.0,1.0.1'', js ''vendorX'']"
    using t quoted_fields_written(1) quoted_fields_texts by simp
  show ?thesis
    using t a p m i w quoted_fields_written(2) by simp
qed

text \<open>
  C1, at the feed whose one data row is \<^verbatim>\<open>pkg-b,",",vendorX\<close>: the versions field is
  the string \<^verbatim>\<open>,\<close>, which is not empty, so the row passes the test of the loop; its
  pieces are all empty, and the record is pushed with no version at all.
\<close>

theorem comma_only_versions_kept:
  "parseConsolidatedCSV comma_only_feed =
     [\<lparr> name = js ''pkg-b'', severity = js ''critical'', affectedVersions = [],
        packageRecord.sources = [js ''vendorX''] \<rparr>]"
  by code_simp

lemma scan_fold:
  "csv_loop (result s) (current s) (inQuotes s) line
     = result (foldl scan_char s line) @ [trim (current (foldl scan_char s line))]"
proof (induction line arbitrary: s)
  case Nil
  show ?case by simp
next
  case (Cons c cs)
  have "csv_loop (result s) (current s) (inQuotes s) (c # cs)
        = csv_loop (result (scan_char s c)) (current (scan_char s c)) (inQuotes (scan_char s c)) cs"
    by (simp add: scan_char_def)
  then show ?case using Cons.IH[of "scan_char s c"] by simp
qed

lemma parseCSVLine_run_fields: "fst (parseCSVLine_run s line) = parseCSVLine line"
  unfolding parseCSVLine_run_def parseCSVLine_def Let_def
  using scan_fold[of "s\<lparr>result := [], current := [], inQuotes := False\<rparr>" line]
  by simp

lemma parse_turn_packages:
  "parser.packages (parse_turn s raw)
     = (case parse_row raw of None \<Rightarrow> parser.packages s | Some r \<Rightarrow> parser.packages s @ [r])"
proof (cases "trim raw = []")
  case True
  then show ?thesis by (simp add: parse_turn_def parse_row_def)
next
  case False
  obtain cells sc where run: "parseCSVLine_run (callee s) (trim raw) = (cells, sc)"
    by (cases "parseCSVLine_run (callee s) (trim raw)")
  then have c: "cells = parseCSVLine (trim raw)"
    using parseCSVLine_run_fields[of "callee s" "trim raw"] by simp
  show ?thesis
    using False run c by (simp add: parse_turn_def parse_row_def split: option.splits)
qed

lemma parse_turns_packages:
  "parser.packages (foldl parse_turn s ls) = rows_loop (parser.packages s) ls"
proof (induction ls arbitrary: s)
  case Nil
  show ?case by simp
next
  case (Cons l ls)
  show ?case
    using Cons.IH[of "parse_turn s l"] parse_turn_packages[of s l]
    by (simp split: option.splits)
qed

lemma parseConsolidatedCSV_run_records:
  "fst (parseConsolidatedCSV_run s csv) = parseConsolidatedCSV csv"
  unfolding parseConsolidatedCSV_run_def parseConsolidatedCSV_def Let_def
  by (simp add: parse_turns_packages)

text \<open>
  C9. The records that a parse returns do not depend on the state it starts from: two
  parses of one feed text return the same records whatever the variables of the parser
  and of the scanner hold before each, also when the second parse starts from the state
  the first one left; and the records are those of the function of the feed text alone.
\<close>

theorem parseConsolidatedCSV_stateless:
  "fst (parseConsolidatedCSV_run s csv) = fst (parseConsolidatedCSV_run s' csv) \<and>
   fst (parseConsolidatedCSV_run (snd (parseConsolidatedCSV_run s csv)) csv)
     = fst (parseConsolidatedCSV_run s csv) \<and>
   fst (parseConsolidatedCSV_run s csv) = parseConsolidatedCSV csv"
  by (simp add: parseConsolidatedCSV_run_records)

lemma clean_run:
  "fst (parseConsolidatedCSV_run clean_parser (feed_header @ [newline] @ quoted_row)) =
     [\<lparr> name = js ''pkg-a'', severity = js ''critical'',
        affectedVersions = [js ''1.0.0'', js ''1.0.1''],
        packageRecord.sources = [js ''vendorX''] \<rparr>]"
  by code_simp

theorem parseConsolidatedCSV_stateless_witness:
  "fst (parseConsolidatedCSV_run dirty_parser (feed_header @ [newline] @ quoted_row)) =
     [\<lparr> name = js ''pkg-a'', severity = js ''critical'',
        affectedVersions = [js ''1.0.0'', js ''1.0.1''],
        packageRecord.sources = [js ''vendorX''] \<rparr>] \<and>
   fst (parseConsolidatedCSV_run
          (snd (parseConsolidatedCSV_run dirty_parser (feed_header @ [newline] @ quoted_row)))
          (feed_header @ [newline] @ quoted_row)) =
     [\<lparr> name = js ''pkg-a'', severity = js ''critical'',
        affectedVersions = [js ''1.0.0'', js ''1.0.1''],
        packageRecord.sources = [js ''vendorX''] \<rparr>]"
  using parseConsolidatedCSV_stateless[of dirty_parser "feed_header @ [newline] @ quoted_row"
      clean_parser] clean_run
  by simp

section \<open>Properties of the transport\<close>

lemma url_neq: "CONSOLIDATED_IOC_URL \<noteq> mirror_url"
  by (simp add: CONSOLIDATED_IOC_URL_def mirror_url_def js_def)

text \<open>
  C6. On a response with status 301 or 302 the fetch is the fetch of the
  \<^verbatim>\<open>Location\<close> header, whatever that one gives; when the target answers 200 with a
  body, the fetch resolves with that body after exactly two calls of \<^verbatim>\<open>https.get\<close>,
  the first and one more.
\<close>

theorem fetchUrl_follows_redirect:
  assumes "net reqs u = Responded res" and "statusCode res = 301 \<or> statusCode res = 302"
  shows "fetchUrl net reqs u = fetchUrl net (reqs @ [u]) (location res) \<and>
         (net (reqs @ [u]) (location res) = Responded res' \<and> statusCode res' = 200 \<and>
            body res' = Inr data
          \<longrightarrow> fetchUrl net reqs u = Some (Inr data, reqs @ [u, location res]))"
proof (intro conjI impI)
  show step: "fetchUrl net reqs u = fetchUrl net (reqs @ [u]) (location res)"
    using assms by (subst fetchUrl.simps) auto
  assume "net (reqs @ [u]) (location res) = Responded res' \<and> statusCode res' = 200 \<and>
            body res' = Inr data"
  then have "fetchUrl net (reqs @ [u]) (location res) = Some (Inr data, reqs @ [u, location res])"
    by (subst fetchUrl.simps) simp
  then show "fetchUrl net reqs u = Some (Inr data, reqs @ [u, location res])"
    using step by simp
qed

theorem fetchUrl_follows_redirect_witness:
  "moved_net [] (Some CONSOLIDATED_IOC_URL) =
     Responded \<lparr> statusCode = 302, statusMessage = js ''Found'',
                 location = Some mirror_url, body = Inr [] \<rparr> \<and>
   fetchUrl moved_net [] (Some CONSOLIDATED_IOC_URL) =
     Some (Inr small_feed, [Some CONSOLIDATED_IOC_URL, Some mirror_url])"
proof -
  let ?res = "\<lparr> statusCode = 302, statusMessage = js ''Found'',
                 location = Some mirror_url, body = Inr [] \<rparr> :: response"
  let ?res' = "\<lparr> statusCode = 200, statusMessage = js ''OK'',
                 location = None, body = Inr small_feed \<rparr> :: response"
  have a: "moved_net [] (Some CONSOLIDATED_IOC_URL) = Responded ?res"
    by (simp add: moved_net_def)
  have b: "moved_net ([] @ [Some CONSOLIDATED_IOC_URL]) (location ?res) = Responded ?res'"
    using url_neq by (auto simp add: moved_net_def)
  have r: "statusCode ?res = 301 \<or> statusCode ?res = 302"
    by simp
  note t = fetchUrl_follows_redirect[of moved_net "[]" "Some CONSOLIDATED_IOC_URL" ?res ?res'
      small_feed, OF a r, THEN conjunct2]
  have "fetchUrl moved_net [] (Some CONSOLIDATED_IOC_URL) =
          Some (Inr small_feed, [Some CONSOLIDATED_IOC_URL, Some mirror_url])"
    using t b by simp
  then show ?thesis
    using a by simp
qed




section \<open>Properties of the merge\<close>

lemma neq_keys:
  "js ''attackInfo'' \<noteq> js ''version''" "js ''indicators'' \<noteq> js ''version''"
  "js ''indicators'' \<noteq> js ''attackInfo''" "js ''acknowledgements'' \<noteq> js ''version''"
  "js ''acknowledgements'' \<noteq> js ''attackInfo''" "js ''acknowledgements'' \<noteq> js ''indicators''"
  by (simp_all add: js_def)

text \<open>
  C2, as amended. Whatever the records, each of \<^verbatim>\<open>attackInfo\<close>, \<^verbatim>\<open>indicators\<close> and
  \<^verbatim>\<open>acknowledgements\<close> of the merged database is the value the previous database
  holds for it when that value is truthy; when the previous database is absent, or has
  no such field, or holds a falsy value for it (\<^verbatim>\<open>null\<close>, \<^verbatim>\<open>false\<close>, \<^verbatim>\<open>0\<close>, the
  empty string), the field is the fixed default: the attack info naming the campaign and
  its alias, the empty object, the empty array.
\<close>

theorem curated_fields_preserved:
  "(field existing (js ''attackInfo'') = Some a \<and> truthy a
      \<longrightarrow> attackInfo (buildDatabase now existing pkgs) = a) \<and>
   (field existing (js ''indicators'') = Some i \<and> truthy i
      \<longrightarrow> indicators (buildDatabase now existing pkgs) = i) \<and>
   (field existing (js ''acknowledgements'') = Some k \<and> truthy k
      \<longrightarrow> acknowledgements (buildDatabase now existing pkgs) = k) \<and>
   (field existing (js ''attackInfo'') = None \<or> (field existing (js ''attackInfo'') = Some a \<and> \<not> truthy a)
      \<longrightarrow> attackInfo (buildDatabase now existing pkgs) = defaultAttackInfo) \<and>
   (field existing (js ''indicators'') = None \<or> (field existing (js ''indicators'') = Some i \<and> \<not> truthy i)
      \<longrightarrow> indicators (buildDatabase now existing pkgs) = JObject []) \<and>
   (field existing (js ''acknowledgements'') = None \<or> (field existing (js ''acknowledgements'') = Some k \<and> \<not> truthy k)
      \<longrightarrow> acknowledgements (buildDatabase now existing pkgs) = JArray []) \<and>
   attackInfo (buildDatabase now None pkgs) = defaultAttackInfo \<and>
   indicators (buildDatabase now None pkgs) = JObject [] \<and>
   acknowledgements (buildDatabase now None pkgs) = JArray []"
  by (auto simp: buildDatabase_def or_else_def field_def)

theorem curated_fields_preserved_witness:
  "attackInfo (buildDatabase (js ''2025-12-01T00:00:00.000Z'') (Some curated_db) vendor_pkgs)
     = JObject [(js ''name'', JString (js ''Shai-Hulud 2.0'')), (js ''alias'', JString (js ''Sandworm''))] \<and>
   indicators (buildDatabase (js ''2025-12-01T00:00:00.000Z'') (Some curated_db) vendor_pkgs)
     = JObject [(js ''maliciousFiles'', JArray [JString (js ''bun_environment.js'')])] \<and>
   acknowledgements (buildDatabase (js ''2025-12-01T00:00:00.000Z'') (Some curated_db) vendor_pkgs)
     = JObject [(js ''securityResearchers'', JArray [])] \<and>
   acknowledgements (buildDatabase (js ''2025-12-01T00:00:00.000Z'') (Some null_credits_db) vendor_pkgs)
     = JArray [] \<and>
   attackInfo (buildDatabase (js ''2025-12-01T00:00:00.000Z'') None vendor_pkgs) = defaultAttackInfo"
proof -
  let ?a = "JObject [(js ''name'', JString (js ''Shai-Hulud 2.0'')), (js ''alias'', JString (js ''Sandworm''))]"
  let ?i = "JObject [(js ''maliciousFiles'', JArray [JString (js ''bun_environment.js'')])]"
  let ?k = "JObject [(js ''securityResearchers'', JArray [])]"
  have f: "field (Some curated_db) (js ''attackInfo'') = Some ?a"
    "field (Some curated_db) (js ''indicators'') = Some ?i"
    "field (Some curated_db) (js ''acknowledgements'') = Some ?k"
    by (simp_all add: field_def curated_db_def neq_keys)
  have n: "field (Some null_credits_db) (js ''acknowledgements'') = Some JNull"
    by (simp add: field_def null_credits_db_def neq_keys)
  note kept = curated_fields_preserved[where existing = "Some curated_db" and a = ?a and i = ?i
      and k = ?k and now = "js ''2025-12-01T00:00:00.000Z''" and pkgs = vendor_pkgs]
  note seeded = curated_fields_preserved[where existing = "Some null_credits_db" and k = JNull
      and now = "js ''2025-12-01T00:00:00.000Z''" and pkgs = vendor_pkgs]
  show ?thesis
    using kept seeded f n by simp
qed

text \<open>
  C2 as stated fails at a previous database that is present and whose
  \<^verbatim>\<open>acknowledgements\<close> is \<^verbatim>\<open>null\<close>: the merged database holds the empty array
  there, not the previous value.
\<close>

theorem null_credits_counterexample:
  "field (Some null_credits_db) (js ''acknowledgements'') = Some JNull \<and>
   acknowledgements (buildDatabase (js ''2025-12-01T00:00:00.000Z'') (Some null_credits_db) []) = JArray []
   \<and> JArray [] \<noteq> JNull"
  by (simp add: buildDatabase_def or_else_def field_def null_credits_db_def neq_keys)

text \<open>
  C3, as amended. The version of the merged database is the version of the previous
  database when that one is truthy; when the previous database is absent, or has no
  version, or a falsy one (the empty string among them), it is the default
  \<^verbatim>\<open>2.1.0\<close>.
\<close>

theorem version_carried_forward:
  "(field existing (js ''version'') = Some v \<and> truthy v
      \<longrightarrow> version (buildDatabase now existing pkgs) = v) \<and>
   (field existing (js ''version'') = None \<or> (field existing (js ''version'') = Some v \<and> \<not> truthy v)
      \<longrightarrow> version (buildDatabase now existing pkgs) = JString (js ''2.1.0'')) \<and>
   version (buildDatabase now None pkgs) = JString (js ''2.1.0'')"
  by (auto simp: buildDatabase_def or_else_def field_def)

theorem version_carried_forward_witness:
  "version (buildDatabase (js ''2025-12-01T00:00:00.000Z'') (Some curated_db) vendor_pkgs)
     = JString (js ''2.0.3'') \<and>
   version (buildDatabase (js ''2025-12-01T00:00:00.000Z'') (Some unversioned_db) vendor_pkgs)
     = JString (js ''2.1.0'') \<and>
   version (buildDatabase (js ''2025-12-01T00:00:00.000Z'') None vendor_pkgs) = JString (js ''2.1.0'')"
proof -
  have f: "field (Some curated_db) (js ''version'') = Some (JString (js ''2.0.3''))"
    by (simp add: field_def curated_db_def)
  have t: "truthy (JString (js ''2.0.3''))"
    by (simp add: js_def)
  have n: "field (Some unversioned_db) (js ''version'') = Some (JString [])"
    by (simp add: field_def unversioned_db_def)
  note kept = version_carried_forward[where existing = "Some curated_db" and v = "JString (js ''2.0.3'')"
      and now = "js ''2025-12-01T00:00:00.000Z''" and pkgs = vendor_pkgs]
  note seeded = version_carried_forward[where existing = "Some unversioned_db" and v = "JString []"
      and now = "js ''2025-12-01T00:00:00.000Z''" and pkgs = vendor_pkgs]
  show ?thesis
    using kept seeded f t n by simp
qed

text \<open>
  C3 as stated fails at a previous database that is present and whose version is the empty
  string: the merged version is \<^verbatim>\<open>2.1.0\<close>, not the previous one.
\<close>

theorem version_emptied_counterexample:
  "field (Some unversioned_db) (js ''version'') = Some (JString []) \<and>
   version (buildDatabase (js ''2025-12-01T00:00:00.000Z'') (Some unversioned_db) []) = JString (js ''2.1.0'')
   \<and> JString (js ''2.1.0'') \<noteq> JString []"
  by (simp add: buildDatabase_def or_else_def field_def unversioned_db_def js_def)

section \<open>Properties of the source counts\<close>

lemma first_seen_snoc:
  "first_seen (xs @ [x]) = (if x \<in> set xs then first_seen xs else first_seen xs @ [x])"
  by (simp add: first_seen_def)

lemma set_first_seen [simp]: "set (first_seen xs) = set xs"
  by (simp add: first_seen_def)

lemma distinct_first_seen [simp]: "distinct (first_seen xs)"
  by (simp add: first_seen_def)

lemma countSources_flat:
  "foldl (\<lambda>sc pkg. foldl count_source sc (packageRecord.sources pkg)) acc pkgs
     = foldl count_source acc (all_sources pkgs)"
  by (induction pkgs arbitrary: acc) (simp_all add: all_sources_def)













text \<open>The report in words lists every source once, by descending count, and keeps the key
  order among equal counts.\<close>

lemma distinct_map_sort_key: "distinct (map g (sort_key f es)) = distinct (map g es)"
  by (simp add: distinct_map)

lemma occurrence_report_keys:
  "distinct (map fst (occurrence_report pkgs)) \<and>
   set (map fst (occurrence_report pkgs)) = set (all_sources pkgs)"
proof -
  let ?ks = "key_order (first_seen (all_sources pkgs))"
  let ?es = "map (\<lambda>s. (s, count_list (all_sources pkgs) s)) ?ks"
  have d: "distinct ?ks" and s: "set ?ks = set (all_sources pkgs)"
    by (auto simp: key_order_def)
  have m: "map fst ?es = ?ks"
    by (simp add: comp_def)
  have "distinct (map fst (sort_key (\<lambda>(s, n). - int n) ?es))"
    unfolding distinct_map_sort_key m by (rule d)
  moreover have "set (map fst (sort_key (\<lambda>(s, n). - int n) ?es)) = set (all_sources pkgs)"
    unfolding s[symmetric] by (simp add: image_image)
  ultimately show ?thesis
    unfolding occurrence_report_def by blast
qed

lemma occurrence_report_descending:
  "sorted_wrt (\<lambda>a b. snd b \<le> snd a) (occurrence_report pkgs)"
proof -
  have "sorted (map (\<lambda>(s, n). - int n) (occurrence_report pkgs))"
    unfolding occurrence_report_def by (rule sorted_sort_key)
  then show ?thesis
    unfolding sorted_map by (rule sorted_wrt_mono_rel[rotated]) auto
qed

lemma occurrence_report_ties:
  "filter (\<lambda>e. snd e = n) (occurrence_report pkgs)
     = filter (\<lambda>e. snd e = n)
         (map (\<lambda>s. (s, count_list (all_sources pkgs) s)) (key_order (first_seen (all_sources pkgs))))"
proof -
  have "(\<lambda>e :: jsstring \<times> nat. snd e = n) = (\<lambda>e. (case e of (s, m) \<Rightarrow> - int m) = - int n)"
    by auto
  then show ?thesis
    unfolding occurrence_report_def by (simp only: sort_key_stable)
qed


lemmas eval_counts =
  sourceReport_def countSources_def count_source_def bump_def assign_def objectPrototype_def
  entries_def array_index_def js_def is_digit_def digits_value_def sort_by_def consistent_def





lemma keys_overwrite:
  "map fst (map (\<lambda>(k, w). if k = key then (k, v) else (k, w)) sc) = map fst sc"
  by (induction sc) auto

lemma keys_assign:
  "map fst (assign sc key v) =
     (if key \<in> set (map fst sc) \<or> key = js ''__proto__'' then map fst sc else map fst sc @ [key])"
proof (cases "key \<in> fst ` set sc")
  case True
  then have a: "assign sc key v = map (\<lambda>(k, w). if k = key then (k, v) else (k, w)) sc"
    by (simp add: assign_def)
  have "map fst (assign sc key v) = map fst sc"
    unfolding a by (rule keys_overwrite)
  then show ?thesis
    using True by simp
next
  case False
  then have "assign sc key v = (if key = js ''__proto__'' then sc else sc @ [(key, v)])"
    by (simp add: assign_def)
  then show ?thesis
    using False by simp
qed

lemma keys_counted:
  "map fst (foldl count_source [] xs) = first_seen (filter (\<lambda>x. x \<noteq> js ''__proto__'') xs)"
proof (induction xs rule: rev_induct)
  case Nil
  show ?case by (simp add: first_seen_def)
next
  case (snoc x xs)
  then show ?case
    by (auto simp add: count_source_def keys_assign first_seen_snoc)
qed

lemma set_entries: "set (entries sc) = set sc"
  by (auto simp: entries_def)

lemma distinct_entries: "distinct sc \<Longrightarrow> distinct (entries sc)"
  by (auto simp: entries_def)

lemma distinct_keys_entries: "distinct (map fst sc) \<Longrightarrow> distinct (map fst (entries sc))"
  by (simp add: distinct_map set_entries distinct_entries)

text \<open>
  Apart from the name \<^verbatim>\<open>__proto__\<close>, the sources of the merged database are the sources
  of the records, each once, in ascending order.
\<close>

lemma dataSource_sources:
  "sorted (data_source.sources (dataSource (buildDatabase now existing pkgs))) \<and>
   distinct (data_source.sources (dataSource (buildDatabase now existing pkgs))) \<and>
   set (data_source.sources (dataSource (buildDatabase now existing pkgs)))
     = set (all_sources pkgs) - {js ''__proto__''}"
proof -
  have k: "map fst (countSources pkgs) = first_seen (filter (\<lambda>x. x \<noteq> js ''__proto__'') (all_sources pkgs))"
    unfolding countSources_def countSources_flat by (rule keys_counted)
  have d: "distinct (map fst (entries (countSources pkgs)))"
    by (rule distinct_keys_entries) (simp add: k)
  have "set (map fst (entries (countSources pkgs))) = set (map fst (countSources pkgs))"
    by (simp add: set_entries)
  then have s: "set (map fst (entries (countSources pkgs))) = set (all_sources pkgs) - {js ''__proto__''}"
    unfolding k by auto
  show ?thesis
    using d s by (simp add: buildDatabase_def)
qed

lemma proto_feed_parsed:
  "parseConsolidatedCSV proto_feed =
     [\<lparr> name = js ''pkg-c'', severity = js ''critical'', affectedVersions = [js ''1.0.0''],
        packageRecord.sources = [js ''__proto__'', js ''wiz''] \<rparr>]"
  by code_simp

text \<open>
  C7, at the feed whose one data row is \<^verbatim>\<open>pkg-c,1.0.0,"__proto__,wiz"\<close>: the record has
  the two sources \<^verbatim>\<open>__proto__\<close> and \<^verbatim>\<open>wiz\<close>, and the merged database lists
  \<^verbatim>\<open>wiz\<close> alone, the assignment to \<^verbatim>\<open>sourceCounts['__proto__']\<close> having created no
  property.
\<close>

theorem proto_source_lost:
  "parseConsolidatedCSV proto_feed =
     [\<lparr> name = js ''pkg-c'', severity = js ''critical'', affectedVersions = [js ''1.0.0''],
        packageRecord.sources = [js ''__proto__'', js ''wiz''] \<rparr>] \<and>
   data_source.sources (dataSource (buildDatabase (js ''2025-12-01T00:00:00.000Z'') None
       (parseConsolidatedCSV proto_feed))) = [js ''wiz'']"
  unfolding proto_feed_parsed
  by (simp add: buildDatabase_def eval_counts)

end
